theory Spec2Isabelle
  imports Main
begin

section \<open>Python values used by battleship.py\<close>

text \<open>
  The exceptions the modelled code can raise: \<open>IndexError\<close> from list indexing and
  \<open>ValueError\<close> from \<open>random.randrange\<close> on an empty range.
\<close>

datatype error = IndexError | ValueError

text \<open>
  Python list indexing \<open>xs[i]\<close>: an index in \<open>0..len-1\<close> is taken as it is, an index
  in \<open>-len..-1\<close> counts from the end, anything else raises \<open>IndexError\<close>.
\<close>

definition py_index :: "'a list \<Rightarrow> int \<Rightarrow> error + nat" where
  "py_index xs i =
     (let n = int (length xs)
      in if 0 \<le> i \<and> i < n then Inr (nat i)
         else if - n \<le> i \<and> i < 0 then Inr (nat (n + i))
         else Inl IndexError)"

definition getitem :: "'a list \<Rightarrow> int \<Rightarrow> error + 'a" where
  "getitem xs i = (case py_index xs i of Inl e \<Rightarrow> Inl e | Inr k \<Rightarrow> Inr (xs ! k))"

text \<open>\<open>g[x][y]\<close>\<close>

definition getitem2 :: "'a list list \<Rightarrow> int \<Rightarrow> int \<Rightarrow> error + 'a" where
  "getitem2 g x y = (case getitem g x of Inl e \<Rightarrow> Inl e | Inr row \<Rightarrow> getitem row y)"

text \<open>\<open>g[x][y] = v\<close>: the row \<open>g[x]\<close> is fetched, then its element \<open>y\<close> is assigned.\<close>

definition setitem2 :: "'a list list \<Rightarrow> int \<Rightarrow> int \<Rightarrow> 'a \<Rightarrow> error + 'a list list" where
  "setitem2 g x y v =
     (case py_index g x of
        Inl e \<Rightarrow> Inl e
      | Inr i \<Rightarrow>
          (case py_index (g ! i) y of
             Inl e \<Rightarrow> Inl e
           | Inr j \<Rightarrow> Inr (g[i := (g ! i)[j := v]])))"

section \<open>Board\<close>

definition BOARD_SIZE :: int where
  "BOARD_SIZE = 10"

definition SHIP_SIZES :: "nat list" where
  "SHIP_SIZES = [5, 4, 3, 2, 2]"

text \<open>
  The dataclass \<open>Board\<close>. Its field \<open>size\<close> is called \<open>board_size\<close> here.
\<close>

record Board =
  board_size :: int
  grid :: "int list list"
  hits :: "bool list list"
  total_ship_cells :: int
  hits_count :: int

text \<open>\<open>Board()\<close>: the dataclass defaults.\<close>

definition Board_default :: Board where
  "Board_default =
     \<lparr> board_size = BOARD_SIZE,
       grid = replicate (nat BOARD_SIZE) (replicate (nat BOARD_SIZE) 0),
       hits = replicate (nat BOARD_SIZE) (replicate (nat BOARD_SIZE) False),
       total_ship_cells = 0,
       hits_count = 0 \<rparr>"

text \<open>
  \<open>Board.register_shot(x, y, hit)\<close>: the returned pair is the method's return value and
  the board after the call.
\<close>

definition register_shot :: "Board \<Rightarrow> int \<Rightarrow> int \<Rightarrow> bool \<Rightarrow> error + (bool \<times> Board)" where
  "register_shot b x y hit =
     (case getitem2 (hits b) x y of
        Inl e \<Rightarrow> Inl e
      | Inr already \<Rightarrow>
          if already then Inr (False, b)
          else
            (case setitem2 (hits b) x y True of
               Inl e \<Rightarrow> Inl e
             | Inr h' \<Rightarrow>
                 let b1 = b\<lparr>hits := h'\<rparr>;
                     b2 = (if hit then b1\<lparr>hits_count := hits_count b1 + 1\<rparr> else b1)
                 in Inr (True, b2)))"

definition all_sunk :: "Board \<Rightarrow> bool" where
  "all_sunk b = (hits_count b \<ge> total_ship_cells b)"

section \<open>The encryption wrapper\<close>

text \<open>
  The sealy objects held by \<open>SealBFVCrypto\<close> (encoder, encryptor, decryptor, evaluator)
  belong to an external library. They are the fields of this record, taken as parameters:
  \<open>'p\<close> is the library's plaintext type and \<open>'c\<close> its ciphertext type.
\<close>

record ('p, 'c) SealBFVCrypto =
  encode_int :: "int list \<Rightarrow> 'p"
  decode_int :: "'p \<Rightarrow> int list"
  encrypt :: "'p \<Rightarrow> 'c"
  decrypt :: "'c \<Rightarrow> 'p"
  multiply_plain :: "'c \<Rightarrow> 'p \<Rightarrow> 'c"

definition encrypt_int :: "('p, 'c) SealBFVCrypto \<Rightarrow> int \<Rightarrow> 'c" where
  "encrypt_int cr v = (let pt = encode_int cr [v] in encrypt cr pt)"

text \<open>\<open>decrypt_first\<close> reads slot 0 of the decoded vector; an empty vector raises.\<close>

definition decrypt_first :: "('p, 'c) SealBFVCrypto \<Rightarrow> 'c \<Rightarrow> error + int" where
  "decrypt_first cr ciphertext =
     (let pt = decrypt cr ciphertext; vec = decode_int cr pt in getitem vec 0)"

text \<open>
  \<open>random.randint(lo, hi)\<close> for \<open>lo \<le> hi\<close> (the code calls it with 1 and 100 only):
  some integer of \<open>lo..hi\<close>, selected here by a raw draw of the generator.
\<close>

definition randint :: "int \<Rightarrow> int \<Rightarrow> nat \<Rightarrow> int" where
  "randint lo hi raw = lo + int raw mod (hi - lo + 1)"

definition blind_multiply_random :: "('p, 'c) SealBFVCrypto \<Rightarrow> nat \<Rightarrow> 'c \<Rightarrow> 'c" where
  "blind_multiply_random cr raw ciphertext =
     (let r = randint 1 100 raw; pt_r = encode_int cr [r]
      in multiply_plain cr ciphertext pt_r)"

text \<open>
  The library contract of the specification:
  \<open>decrypt(multiplyByPlaintext(encrypt(v), encode(r))) == r * v\<close>, read through the
  wrapper's \<open>encrypt_int\<close> and \<open>decrypt_first\<close>. \<open>lib_contract\<close> is the exact form,
  \<open>lib_contract_mod t\<close> the form modulo the plaintext modulus \<open>t\<close>.
\<close>

definition lib_contract :: "('p, 'c) SealBFVCrypto \<Rightarrow> bool" where
  "lib_contract cr =
     (\<forall>v r. decrypt_first cr (multiply_plain cr (encrypt_int cr v) (encode_int cr [r])) = Inr (r * v))"

definition lib_contract_mod :: "('p, 'c) SealBFVCrypto \<Rightarrow> int \<Rightarrow> bool" where
  "lib_contract_mod cr t =
     (\<forall>v r. decrypt_first cr (multiply_plain cr (encrypt_int cr v) (encode_int cr [r]))
              = Inr ((r * v) mod t))"

text \<open>
  Two stand-ins for the library, used to evaluate the model on concrete inputs: plaintexts
  and ciphertexts are the slot vectors themselves, multiplied slot by slot; the second
  one reduces modulo \<open>t\<close> as a batching encoder does.
\<close>

definition clear_crypto :: "(int list, int list) SealBFVCrypto" where
  "clear_crypto =
     \<lparr> encode_int = (\<lambda>xs. xs), decode_int = (\<lambda>p. p), encrypt = (\<lambda>p. p), decrypt = (\<lambda>c. c),
       multiply_plain = (\<lambda>c p. map (\<lambda>(a, b). a * b) (zip c p)) \<rparr>"

definition mod_crypto :: "int \<Rightarrow> (int list, int list) SealBFVCrypto" where
  "mod_crypto t =
     \<lparr> encode_int = map (\<lambda>a. a mod t), decode_int = (\<lambda>p. p), encrypt = (\<lambda>p. p),
       decrypt = (\<lambda>c. c),
       multiply_plain = (\<lambda>c p. map (\<lambda>(a, b). (a * b) mod t) (zip c p)) \<rparr>"

section \<open>Player and Server\<close>

record ('p, 'c) Player =
  name :: string
  crypto :: "('p, 'c) SealBFVCrypto"
  board :: Board
  enc_board :: "'c list list"
  points :: int

text \<open>Collecting the results of a comprehension: the first exception aborts it.\<close>

fun collect :: "(error + 'a) list \<Rightarrow> error + 'a list" where
  "collect [] = Inr []"
| "collect (x # xs) =
     (case x of
        Inl e \<Rightarrow> Inl e
      | Inr v \<Rightarrow> (case collect xs of Inl e \<Rightarrow> Inl e | Inr vs \<Rightarrow> Inr (v # vs)))"

text \<open>
  The nested comprehension of \<open>Player.encrypt_board\<close>:
  \<open>[[encrypt_int(grid[r][c]) for c in range(size)] for r in range(size)]\<close>.
\<close>

definition encrypted_grid :: "('p, 'c) SealBFVCrypto \<Rightarrow> Board \<Rightarrow> error + 'c list list" where
  "encrypted_grid cr b =
     collect (map (\<lambda>r. collect (map (\<lambda>c.
        (case getitem2 (grid b) (int r) (int c) of
           Inl e \<Rightarrow> Inl e
         | Inr v \<Rightarrow> Inr (encrypt_int cr v)))
        [0..<nat (board_size b)]))
        [0..<nat (board_size b)])"

definition encrypt_board :: "('p, 'c) Player \<Rightarrow> error + ('p, 'c) Player" where
  "encrypt_board p =
     (case encrypted_grid (crypto p) (board p) of
        Inl e \<Rightarrow> Inl e
      | Inr e \<Rightarrow> Inr (p\<lparr>enc_board := e\<rparr>))"

text \<open>
  What a call of \<open>Server.process_guess\<close> does: \<open>returned\<close> is its return value and
  \<open>defender_after\<close> the defender it leaves behind; \<open>lib_calls\<close> lists the wrapper
  operations it invoked, in order, and \<open>register_shot_returned\<close> is the value of its
  call of \<open>register_shot\<close> (which the code discards), \<open>None\<close> when there was no call.
\<close>

datatype lib_call = BlindMultiplyRandom | DecryptFirst

record ('p, 'c) guess_result =
  returned :: bool
  defender_after :: "('p, 'c) Player"
  lib_calls :: "lib_call list"
  register_shot_returned :: "bool option"

definition process_guess ::
  "('p, 'c) Player \<Rightarrow> ('p, 'c) Player \<Rightarrow> int \<Rightarrow> int \<Rightarrow> nat \<Rightarrow> error + ('p, 'c) guess_result" where
  "process_guess attacker defender x y raw =
     (case getitem2 (hits (board defender)) x y of
        Inl e \<Rightarrow> Inl e
      | Inr already \<Rightarrow>
          if already then
            Inr \<lparr> returned = False, defender_after = defender, lib_calls = [],
                  register_shot_returned = None \<rparr>
          else
            (case getitem2 (enc_board defender) x y of
               Inl e \<Rightarrow> Inl e
             | Inr c_cell \<Rightarrow>
                 let c_blind = blind_multiply_random (crypto defender) raw c_cell
                 in (case decrypt_first (crypto defender) c_blind of
                       Inl e \<Rightarrow> Inl e
                     | Inr m_blind \<Rightarrow>
                         let hit = (m_blind \<noteq> 0)
                         in (case register_shot (board defender) x y hit of
                               Inl e \<Rightarrow> Inl e
                             | Inr (ok, b') \<Rightarrow>
                                 Inr \<lparr> returned = hit,
                                       defender_after = defender\<lparr>board := b'\<rparr>,
                                       lib_calls = [BlindMultiplyRandom, DecryptFirst],
                                       register_shot_returned = Some ok \<rparr>))))"

text \<open>
  A sequence of shots at one defender: each \<open>(x, y, raw)\<close> is a call of
  \<open>process_guess\<close> with the raw draw its blinding uses; an exception ends the sequence.
\<close>

fun shoot_all ::
  "('p, 'c) Player \<Rightarrow> ('p, 'c) Player \<Rightarrow> (int \<times> int \<times> nat) list \<Rightarrow> error + ('p, 'c) Player" where
  "shoot_all attacker defender [] = Inr defender"
| "shoot_all attacker defender ((x, y, raw) # shots) =
     (case process_guess attacker defender x y raw of
        Inl e \<Rightarrow> Inl e
      | Inr res \<Rightarrow> shoot_all attacker (defender_after res) shots)"


section \<open>Ship placement\<close>

text \<open>
  \<open>random.randrange(n)\<close>: \<open>ValueError\<close> when \<open>n \<le> 0\<close>, otherwise some value of
  \<open>0..n-1\<close>, selected by a raw draw. \<open>random.choice(["H", "V"])\<close> is a draw of an
  orientation. One pass of the \<open>while\<close> loop consumes an orientation and the raw draws
  of its two \<open>randrange\<close> calls, in the order of the calls.
\<close>

datatype orientation = H | V

type_synonym draw = "orientation \<times> nat \<times> nat"

definition randrange :: "int \<Rightarrow> nat \<Rightarrow> error + nat" where
  "randrange n raw = (if n \<le> 0 then Inl ValueError else Inr (raw mod nat n))"

text \<open>\<open>for i in range(length): self.grid[row][col+i] = ship_id\<close>, and the vertical one.\<close>

definition stamp_H :: "int list list \<Rightarrow> nat \<Rightarrow> nat \<Rightarrow> nat \<Rightarrow> int \<Rightarrow> int list list" where
  "stamp_H g row col len ship_id =
     fold (\<lambda>i g. g[row := (g ! row)[col + i := ship_id]]) [0..<len] g"

definition stamp_V :: "int list list \<Rightarrow> nat \<Rightarrow> nat \<Rightarrow> nat \<Rightarrow> int \<Rightarrow> int list list" where
  "stamp_V g row col len ship_id =
     fold (\<lambda>i g. g[row + i := (g ! (row + i))[col := ship_id]]) [0..<len] g"

text \<open>
  One pass of the \<open>while not placed\<close> loop: \<open>Inr (Some b')\<close> when the ship was placed,
  \<open>Inr None\<close> when the sampled cells were not all free. The cells read and written are
  \<open>row < size\<close>, \<open>col + i < size\<close> (or \<open>row + i < size\<close>, \<open>col < size\<close>) of a grid
  that \<open>place_ships_random\<close> has just built with \<open>size\<close> rows of \<open>size\<close> cells.
\<close>

definition place_attempt :: "Board \<Rightarrow> nat \<Rightarrow> int \<Rightarrow> draw \<Rightarrow> error + Board option" where
  "place_attempt b len ship_id d =
     (case d of (orient, raw1, raw2) \<Rightarrow>
        (case orient of
           H \<Rightarrow>
             (case randrange (board_size b) raw1 of
                Inl e \<Rightarrow> Inl e
              | Inr row \<Rightarrow>
                  (case randrange (board_size b - int len + 1) raw2 of
                     Inl e \<Rightarrow> Inl e
                   | Inr col \<Rightarrow>
                       if list_all (\<lambda>i. grid b ! row ! (col + i) = 0) [0..<len]
                       then Inr (Some (b\<lparr>grid := stamp_H (grid b) row col len ship_id\<rparr>))
                       else Inr None))
         | V \<Rightarrow>
             (case randrange (board_size b - int len + 1) raw1 of
                Inl e \<Rightarrow> Inl e
              | Inr row \<Rightarrow>
                  (case randrange (board_size b) raw2 of
                     Inl e \<Rightarrow> Inl e
                   | Inr col \<Rightarrow>
                       if list_all (\<lambda>i. grid b ! (row + i) ! col = 0) [0..<len]
                       then Inr (Some (b\<lparr>grid := stamp_V (grid b) row col len ship_id\<rparr>))
                       else Inr None))))"

text \<open>
  The \<open>while not placed\<close> loop for one ship, run on the draws the generator will give.
  The loop has no retry bound: when the draws run out before a placement is accepted the
  result is \<open>None\<close>. Otherwise the result is the exception raised or the board with the
  ship on it, and the draws not yet consumed.
\<close>

fun place_ship :: "Board \<Rightarrow> nat \<Rightarrow> int \<Rightarrow> draw list \<Rightarrow> ((error + Board) \<times> draw list) option" where
  "place_ship b len ship_id [] = None"
| "place_ship b len ship_id (d # ds) =
     (case place_attempt b len ship_id d of
        Inl e \<Rightarrow> Some (Inl e, ds)
      | Inr None \<Rightarrow> place_ship b len ship_id ds
      | Inr (Some b') \<Rightarrow> Some (Inr b', ds))"

text \<open>The \<open>for length in SHIP_SIZES\<close> loop, from the ship id reached so far.\<close>

fun place_ships :: "Board \<Rightarrow> int \<Rightarrow> nat list \<Rightarrow> draw list \<Rightarrow> (error + Board) option" where
  "place_ships b ship_id [] ds = Some (Inr b)"
| "place_ships b ship_id (len # lens) ds =
     (case place_ship b len ship_id ds of
        None \<Rightarrow> None
      | Some (Inl e, ds') \<Rightarrow> Some (Inl e)
      | Some (Inr b', ds') \<Rightarrow>
          place_ships (b'\<lparr>total_ship_cells := total_ship_cells b' + int len\<rparr>)
            (ship_id + 1) lens ds')"

definition place_ships_random :: "Board \<Rightarrow> draw list \<Rightarrow> (error + Board) option" where
  "place_ships_random b ds =
     place_ships
       (b\<lparr> grid := replicate (nat (board_size b)) (replicate (nat (board_size b)) 0),
           hits := replicate (nat (board_size b)) (replicate (nat (board_size b)) False),
           total_ship_cells := 0,
           hits_count := 0 \<rparr>)
       1 SHIP_SIZES ds"

section \<open>Sets of coordinates\<close>

text \<open>
  The cells of a grid that hold a given value, the ship cells (value not 0), the ship
  cells that have been shot, and the cells of a ship of length \<open>len\<close> laid from
  \<open>(row, col)\<close>.
\<close>

definition cells_with :: "int list list \<Rightarrow> int \<Rightarrow> (nat \<times> nat) set" where
  "cells_with g v = {(i, j). i < length g \<and> j < length (g ! i) \<and> g ! i ! j = v}"

definition ship_cells :: "int list list \<Rightarrow> (nat \<times> nat) set" where
  "ship_cells g = {(i, j). i < length g \<and> j < length (g ! i) \<and> g ! i ! j \<noteq> 0}"

definition hit_cells :: "Board \<Rightarrow> (nat \<times> nat) set" where
  "hit_cells b = {(i, j). (i, j) \<in> ship_cells (grid b) \<and>
                          i < length (hits b) \<and> j < length (hits b ! i) \<and> hits b ! i ! j}"

definition segment :: "orientation \<Rightarrow> nat \<Rightarrow> nat \<Rightarrow> nat \<Rightarrow> (nat \<times> nat) set" where
  "segment orient row col len =
     (case orient of
        H \<Rightarrow> {(i, j). i = row \<and> col \<le> j \<and> j < col + len}
      | V \<Rightarrow> {(i, j). j = col \<and> row \<le> i \<and> i < row + len})"

text \<open>A grid of \<open>n\<close> rows of \<open>n\<close> cells, and a ship that lies inside such a grid.\<close>

definition square :: "nat \<Rightarrow> 'a list list \<Rightarrow> bool" where
  "square n g = (length g = n \<and> (\<forall>row \<in> set g. length row = n))"

definition in_grid :: "nat \<Rightarrow> orientation \<Rightarrow> nat \<Rightarrow> nat \<Rightarrow> nat \<Rightarrow> bool" where
  "in_grid n orient row col len =
     (case orient of
        H \<Rightarrow> row < n \<and> col + len \<le> n
      | V \<Rightarrow> row + len \<le> n \<and> col < n)"

section \<open>Invariants\<close>

text \<open>
  What the \<open>for\<close> loop of \<open>place_ships_random\<close> has done when it has taken the board
  \<open>b\<close> to \<open>b'\<close>, placing ships of the lengths \<open>lens\<close> with the ids \<open>v\<close>,
  \<open>v + 1\<close>, ... on an \<open>n\<close> by \<open>n\<close> grid: only free cells were written, each with one of
  the new ids; ship \<open>k\<close> occupies a segment of its length inside the grid; the number
  of ship cells and \<open>total_ship_cells\<close> grew by the sum of the lengths.
\<close>

definition placed_from :: "nat \<Rightarrow> Board \<Rightarrow> int \<Rightarrow> nat list \<Rightarrow> Board \<Rightarrow> bool" where
  "placed_from n b v lens b' =
     (square n (grid b') \<and> board_size b' = board_size b \<and> hits b' = hits b \<and>
      hits_count b' = hits_count b \<and>
      total_ship_cells b' = total_ship_cells b + int (sum_list lens) \<and>
      (\<forall>i<n. \<forall>j<n. grid b' ! i ! j = grid b ! i ! j \<or>
          (grid b ! i ! j = 0 \<and> v \<le> grid b' ! i ! j \<and> grid b' ! i ! j < v + int (length lens))) \<and>
      (\<forall>k<length lens. \<exists>orient row col. in_grid n orient row col (lens ! k) \<and>
          cells_with (grid b') (v + int k) = segment orient row col (lens ! k)) \<and>
      card (ship_cells (grid b')) = card (ship_cells (grid b)) + sum_list lens)"

text \<open>
  What holds of a defender between two guesses of a game: the grid and the shot overlay
  are \<open>n\<close> by \<open>n\<close>, \<open>enc_board\<close> is the encryption of the grid, the library meets
  its contract, \<open>hits_count\<close> is the number of ship cells that have been shot and
  \<open>total_ship_cells\<close> the number of ship cells.
\<close>

definition protocol_inv :: "nat \<Rightarrow> ('p, 'c) Player \<Rightarrow> bool" where
  "protocol_inv n d =
     (square n (grid (board d)) \<and> square n (hits (board d)) \<and>
      board_size (board d) = int n \<and>
      encrypted_grid (crypto d) (board d) = Inr (enc_board d) \<and>
      lib_contract (crypto d) \<and>
      hits_count (board d) = int (card (hit_cells (board d))) \<and>
      total_ship_cells (board d) = int (card (ship_cells (grid (board d)))))"

section \<open>A concrete game\<close>

text \<open>
  Draws of the generator that place the five ships (the second draw is rejected: it
  overlaps ship 1), the board they give, a player holding that board together with its
  encryption under \<open>clear_crypto\<close>, the same player after a shot at \<open>(0, 0)\<close>, and
  seventeen direct \<open>register_shot\<close> calls with \<open>hit = True\<close> on water cells.
\<close>

definition demo_draws :: "draw list" where
  "demo_draws = [(H, 0, 0), (H, 0, 2), (V, 1, 0), (H, 2, 3), (V, 5, 7), (H, 9, 8)]"

definition demo_grid :: "int list list" where
  "demo_grid =
     [[1, 1, 1, 1, 1, 0, 0, 0, 0, 0],
      [2, 0, 0, 0, 0, 0, 0, 0, 0, 0],
      [2, 0, 0, 3, 3, 3, 0, 0, 0, 0],
      [2, 0, 0, 0, 0, 0, 0, 0, 0, 0],
      [2, 0, 0, 0, 0, 0, 0, 0, 0, 0],
      [0, 0, 0, 0, 0, 0, 0, 4, 0, 0],
      [0, 0, 0, 0, 0, 0, 0, 4, 0, 0],
      [0, 0, 0, 0, 0, 0, 0, 0, 0, 0],
      [0, 0, 0, 0, 0, 0, 0, 0, 0, 0],
      [0, 0, 0, 0, 0, 0, 0, 0, 5, 5]]"

definition demo_board :: Board where
  "demo_board =
     \<lparr> board_size = 10, grid = demo_grid,
       hits = replicate 10 (replicate 10 False),
       total_ship_cells = 16, hits_count = 0 \<rparr>"

definition demo_player :: "(int list, int list) Player" where
  "demo_player =
     \<lparr> name = ''Alice'', crypto = clear_crypto, board = demo_board,
       enc_board = map (map (\<lambda>v. [v])) demo_grid, points = 0 \<rparr>"

definition demo_player_shot :: "(int list, int list) Player" where
  "demo_player_shot =
     demo_player\<lparr>board := demo_board
       \<lparr>hits := (hits demo_board)[0 := (hits demo_board ! 0)[0 := True]], hits_count := 1\<rparr>\<rparr>"

definition demo_mod_crypto :: "(int list, int list) SealBFVCrypto" where
  "demo_mod_crypto = mod_crypto 4294967291"

text \<open>
  A whole game against the demo player: the sixteen ship cells are shot, with three
  misses, a repeated coordinate and a negative index in between.
\<close>

definition sinking_shots :: "(int \<times> int \<times> nat) list" where
  "sinking_shots =
     [(0, 0, 7), (7, 7, 1), (0, 1, 2), (0, 2, 3), (0, 3, 4), (0, 4, 5), (5, 5, 6),
      (1, 0, 7), (2, 0, 8), (3, 0, 9), (4, 0, 10), (2, 3, 11), (2, 4, 12), (2, 5, 13),
      (9, 0, 99), (0, 0, 100), (5, 7, 14), (6, 7, 15), (9, 8, 16), (- 1, - 1, 17)]"


section \<open>Indexing lemmas\<close>

lemma py_index_less: "py_index xs i = Inr k \<Longrightarrow> k < length xs"
  by (auto simp: py_index_def Let_def split: if_splits)

lemma getitem_Inr: "getitem xs i = Inr v \<Longrightarrow> \<exists>k. py_index xs i = Inr k \<and> k < length xs \<and> xs ! k = v"
  by (auto simp: getitem_def split: sum.splits dest: py_index_less)

lemma getitem2_Inr:
  "getitem2 g x y = Inr v \<Longrightarrow>
   \<exists>i j. py_index g x = Inr i \<and> i < length g \<and> py_index (g ! i) y = Inr j \<and>
         j < length (g ! i) \<and> g ! i ! j = v"
  unfolding getitem2_def
  by (auto split: sum.splits dest!: getitem_Inr)

lemma getitem2_of_index:
  "py_index g x = Inr i \<Longrightarrow> py_index (g ! i) y = Inr j \<Longrightarrow> getitem2 g x y = Inr (g ! i ! j)"
  by (simp add: getitem2_def getitem_def)

lemma setitem2_of_index:
  "py_index g x = Inr i \<Longrightarrow> py_index (g ! i) y = Inr j \<Longrightarrow>
   setitem2 g x y v = Inr (g[i := (g ! i)[j := v]])"
  by (simp add: setitem2_def)

lemma py_index_nat: "k < length xs \<Longrightarrow> py_index xs (int k) = Inr k"
  by (simp add: py_index_def Let_def)


section \<open>register_shot\<close>


lemma register_shot_fresh:
  assumes "py_index (hits b) x = Inr i" and "py_index (hits b ! i) y = Inr j"
    and "\<not> hits b ! i ! j"
  shows "register_shot b x y hit =
           Inr (True, b\<lparr>hits := (hits b)[i := (hits b ! i)[j := True]],
                        hits_count := (if hit then hits_count b + 1 else hits_count b)\<rparr>)"
  using assms
  by (simp add: register_shot_def getitem2_of_index setitem2_of_index Let_def)




text \<open>
  C9. \<open>register_shot\<close> takes the decision to count a hit from its \<open>hit\<close> argument
  alone: at any coordinate not yet shot, a call with \<open>hit = True\<close> adds one to
  \<open>hits_count\<close> whatever the grid holds there, and leaves the grid and
  \<open>total_ship_cells\<close> as they were. There is a board whose \<open>hits_count\<close> does not
  exceed \<open>total_ship_cells\<close> and a water cell of it where such a call takes
  \<open>hits_count\<close> above \<open>total_ship_cells\<close>.
\<close>

theorem register_shot_trusts_hit_flag:
  "(\<forall>b x y. getitem2 (hits b) x y = Inr False \<longrightarrow>
      (\<exists>b'. register_shot b x y True = Inr (True, b') \<and>
            hits_count b' = hits_count b + 1 \<and>
            grid b' = grid b \<and> total_ship_cells b' = total_ship_cells b)) \<and>
   (\<exists>b x y b'. getitem2 (grid b) x y = Inr 0 \<and> hits_count b \<le> total_ship_cells b \<and>
      register_shot b x y True = Inr (True, b') \<and> total_ship_cells b' < hits_count b')"
proof (intro conjI allI impI)
  fix b :: Board and x y
  assume h: "getitem2 (hits b) x y = Inr False"
  then obtain i j where ij: "py_index (hits b) x = Inr i" "py_index (hits b ! i) y = Inr j"
    and v: "\<not> hits b ! i ! j"
    by (auto dest!: getitem2_Inr)
  show "\<exists>b'. register_shot b x y True = Inr (True, b') \<and>
            hits_count b' = hits_count b + 1 \<and>
            grid b' = grid b \<and> total_ship_cells b' = total_ship_cells b"
    using register_shot_fresh [OF ij v, of True] by simp
next
  have w: "getitem2 (grid Board_default) 0 0 = Inr 0"
    by (simp add: Board_default_def BOARD_SIZE_def getitem2_def getitem_def py_index_def)
  have i0: "py_index (hits Board_default) 0 = Inr 0"
    by (simp add: Board_default_def BOARD_SIZE_def py_index_def)
  have j0: "py_index (hits Board_default ! 0) 0 = Inr 0"
    by (simp add: Board_default_def BOARD_SIZE_def py_index_def)
  have f: "\<not> hits Board_default ! 0 ! 0"
    by (simp add: Board_default_def BOARD_SIZE_def)
  have c: "hits_count Board_default = 0" "total_ship_cells Board_default = 0"
    by (simp_all add: Board_default_def)
  show "\<exists>b x y b'. getitem2 (grid b) x y = Inr 0 \<and> hits_count b \<le> total_ship_cells b \<and>
      register_shot b x y True = Inr (True, b') \<and> total_ship_cells b' < hits_count b'"
  proof -
    define b' where "b' = Board_default
       \<lparr>hits := (hits Board_default)[0 := (hits Board_default ! 0)[0 := True]],
        hits_count := (if True then hits_count Board_default + 1 else hits_count Board_default)\<rparr>"
    have "register_shot Board_default 0 0 True = Inr (True, b')"
      unfolding b'_def by (rule register_shot_fresh [OF i0 j0 f])
    moreover have "total_ship_cells b' < hits_count b'"
      using c by (simp add: b'_def)
    moreover have "hits_count Board_default \<le> total_ship_cells Board_default"
      using c by simp
    ultimately show ?thesis using w by blast
  qed
qed

theorem register_shot_trusts_hit_flag_witness:
  "getitem2 (hits Board_default) 2 5 = Inr False \<and>
   getitem2 (grid Board_default) 2 5 = Inr 0 \<and>
   (\<exists>b'. register_shot Board_default 2 5 True = Inr (True, b') \<and>
         hits_count b' = 1 \<and> total_ship_cells b' = 0)"
proof -
  have h: "getitem2 (hits Board_default) 2 5 = Inr False"
    by (simp add: Board_default_def BOARD_SIZE_def getitem2_def getitem_def py_index_def)
  have w: "getitem2 (grid Board_default) 2 5 = Inr 0"
    by (simp add: Board_default_def BOARD_SIZE_def getitem2_def getitem_def py_index_def)
  have c: "hits_count Board_default = 0" "total_ship_cells Board_default = 0"
    by (simp_all add: Board_default_def)
  from register_shot_trusts_hit_flag have
    "getitem2 (hits Board_default) 2 5 = Inr False \<longrightarrow>
      (\<exists>b'. register_shot Board_default 2 5 True = Inr (True, b') \<and>
            hits_count b' = hits_count Board_default + 1 \<and>
            grid b' = grid Board_default \<and>
            total_ship_cells b' = total_ship_cells Board_default)"
    by blast
  with h w c show ?thesis by auto
qed

section \<open>Encryption of the board, one guess\<close>

lemma collect_map_Inr:
  "collect (map f xs) = Inr ys \<Longrightarrow>
   length ys = length xs \<and> (\<forall>i<length xs. f (xs ! i) = Inr (ys ! i))"
proof (induction xs arbitrary: ys)
  case Nil
  then show ?case by simp
next
  case (Cons x xs)
  from Cons.prems obtain v vs where fx: "f x = Inr v" and c: "collect (map f xs) = Inr vs"
    and ys: "ys = v # vs"
    by (auto split: sum.splits)
  from Cons.IH [OF c] fx ys show ?case
    by (auto simp: nth_Cons split: nat.splits)
qed


lemma encrypted_grid_shape:
  assumes "encrypted_grid cr b = Inr e"
  shows "square (nat (board_size b)) e"
proof -
  let ?n = "nat (board_size b)"
  let ?row = "\<lambda>r. collect (map (\<lambda>c.
        (case getitem2 (grid b) (int r) (int c) of
           Inl e \<Rightarrow> Inl e
         | Inr v \<Rightarrow> Inr (encrypt_int cr v))) [0..<?n])"
  from assms have c: "collect (map ?row [0..<?n]) = Inr e"
    by (simp add: encrypted_grid_def)
  from collect_map_Inr [OF c] have len: "length e = ?n"
    and rows: "\<forall>i<?n. ?row ([0..<?n] ! i) = Inr (e ! i)"
    by simp_all
  have "length (e ! i) = ?n" if "i < ?n" for i
  proof -
    from rows that have "?row i = Inr (e ! i)" by simp
    from collect_map_Inr [OF this] show ?thesis by simp
  qed
  with len show ?thesis
    by (auto simp: square_def in_set_conv_nth)
qed

lemma encrypted_grid_cell:
  assumes "encrypted_grid cr b = Inr e" and "r < nat (board_size b)" and "c < nat (board_size b)"
  shows "\<exists>v. getitem2 (grid b) (int r) (int c) = Inr v \<and> e ! r ! c = encrypt_int cr v"
proof -
  let ?n = "nat (board_size b)"
  let ?cell = "\<lambda>r c. (case getitem2 (grid b) (int r) (int c) of
           Inl e \<Rightarrow> Inl e
         | Inr v \<Rightarrow> Inr (encrypt_int cr v))"
  let ?row = "\<lambda>r. collect (map (?cell r) [0..<?n])"
  from assms(1) have c: "collect (map ?row [0..<?n]) = Inr e"
    by (simp add: encrypted_grid_def)
  from collect_map_Inr [OF c] assms(2) have "?row r = Inr (e ! r)"
    by simp
  from collect_map_Inr [OF this] assms(3) have "?cell r c = Inr (e ! r ! c)"
    by simp
  then show ?thesis
    by (auto split: sum.splits)
qed

lemma randint_1_100: "1 \<le> randint 1 100 raw \<and> randint 1 100 raw \<le> 100"
  by (simp add: randint_def)

lemma square_index:
  assumes "square n g" and "0 \<le> x" and "x < int n" and "0 \<le> y" and "y < int n"
  shows "py_index g x = Inr (nat x)" and "py_index (g ! nat x) y = Inr (nat y)"
    and "getitem2 g x y = Inr (g ! nat x ! nat y)"
proof -
  from assms show a: "py_index g x = Inr (nat x)"
    by (simp add: square_def py_index_def)
  from assms have "length (g ! nat x) = n"
    by (simp add: square_def)
  with assms show b: "py_index (g ! nat x) y = Inr (nat y)"
    by (simp add: py_index_def)
  from a b show "getitem2 g x y = Inr (g ! nat x ! nat y)"
    by (rule getitem2_of_index)
qed

lemma process_guess_fresh:
  assumes h: "getitem2 (hits (board d)) x y = Inr False"
    and c: "getitem2 (enc_board d) x y = Inr c_cell"
    and m: "decrypt_first (crypto d) (blind_multiply_random (crypto d) raw c_cell) = Inr m"
  shows "\<exists>i j. py_index (hits (board d)) x = Inr i \<and> py_index (hits (board d) ! i) y = Inr j \<and>
           process_guess a d x y raw =
             Inr \<lparr> returned = (m \<noteq> 0),
                   defender_after = d\<lparr>board := (board d)
                      \<lparr>hits := (hits (board d))[i := (hits (board d) ! i)[j := True]],
                       hits_count := (if m \<noteq> 0 then hits_count (board d) + 1
                                      else hits_count (board d))\<rparr>\<rparr>,
                   lib_calls = [BlindMultiplyRandom, DecryptFirst],
                   register_shot_returned = Some True \<rparr>"
proof -
  from h obtain i j where ij: "py_index (hits (board d)) x = Inr i"
      "py_index (hits (board d) ! i) y = Inr j" and v: "\<not> hits (board d) ! i ! j"
    by (auto dest!: getitem2_Inr)
  from register_shot_fresh [OF ij v, of "m \<noteq> 0"] h c m ij show ?thesis
    by (simp add: process_guess_def Let_def)
qed

text \<open>
  C5. When the coordinate has already been shot, \<open>process_guess\<close> returns false, makes
  no call to the encryption wrapper (no blind multiplication, no decryption), does not
  call \<open>register_shot\<close>, and leaves the defender, its board included, as it was.
\<close>

theorem process_guess_already_shot:
  assumes "getitem2 (hits (board d)) x y = Inr True"
  shows "\<exists>res. process_guess a d x y raw = Inr res \<and> returned res = False \<and>
           lib_calls res = [] \<and> defender_after res = d \<and>
           hits (board (defender_after res)) = hits (board d) \<and>
           hits_count (board (defender_after res)) = hits_count (board d) \<and>
           grid (board (defender_after res)) = grid (board d) \<and>
           total_ship_cells (board (defender_after res)) = total_ship_cells (board d)"
  using assms by (simp add: process_guess_def)

text \<open>
  C10. The call of \<open>register_shot\<close> inside \<open>process_guess\<close> never takes its
  duplicate-shot branch: whenever \<open>process_guess\<close> returns, the value its inner call
  returned is not false, and it is true exactly when the coordinate had not been shot;
  at a coordinate not yet shot \<open>register_shot\<close> returns true for either hit flag, so
  it raises nothing there either.
\<close>

theorem process_guess_register_shot_true:
  "(\<forall>res. process_guess a d x y raw = Inr res \<longrightarrow>
      register_shot_returned res \<noteq> Some False \<and>
      (register_shot_returned res = Some True) = (getitem2 (hits (board d)) x y = Inr False)) \<and>
   (getitem2 (hits (board d)) x y = Inr False \<longrightarrow>
      (\<forall>hit. \<exists>b'. register_shot (board d) x y hit = Inr (True, b')))"
proof (intro conjI allI impI)
  fix res
  assume r: "process_guess a d x y raw = Inr res"
  then obtain already where al: "getitem2 (hits (board d)) x y = Inr already"
    by (auto simp: process_guess_def split: sum.splits)
  have both: "register_shot_returned res \<noteq> Some False \<and>
      (register_shot_returned res = Some True) = (getitem2 (hits (board d)) x y = Inr False)"
  proof (cases already)
    case True
    with r al show ?thesis by (auto simp: process_guess_def)
  next
    case False
    with al have al': "getitem2 (hits (board d)) x y = Inr False" by simp
    from r al' obtain c m where
      "getitem2 (enc_board d) x y = Inr c"
      "decrypt_first (crypto d) (blind_multiply_random (crypto d) raw c) = Inr m"
      by (auto simp: process_guess_def Let_def split: sum.splits)
    from process_guess_fresh [OF al' this, of a] r al'
    show ?thesis by auto
  qed
  from both show "register_shot_returned res \<noteq> Some False" ..
  from both show "(register_shot_returned res = Some True) =
      (getitem2 (hits (board d)) x y = Inr False)" ..
next
  fix hit
  assume h: "getitem2 (hits (board d)) x y = Inr False"
  then obtain i j where ij: "py_index (hits (board d)) x = Inr i"
      "py_index (hits (board d) ! i) y = Inr j" and v: "\<not> hits (board d) ! i ! j"
    by (auto dest!: getitem2_Inr)
  from register_shot_fresh [OF ij v, of hit]
  show "\<exists>b'. register_shot (board d) x y hit = Inr (True, b')" by blast
qed

lemma square_index_nat:
  assumes "square n g" and "r < n" and "c < n"
  shows "getitem2 g (int r) (int c) = Inr (g ! r ! c)"
  using square_index(3) [OF assms(1), of "int r" "int c"] assms(2,3) by simp



text \<open>
  C2. Under the library contract modulo a plaintext modulus above 500, for a cell value
  \<open>v\<close> of \<open>0..5\<close> and any draw of the blind scalar (which \<open>randint\<close> keeps in
  \<open>1..100\<close>), decrypting the blinded encryption of \<open>v\<close> gives the product of the scalar
  and \<open>v\<close>, which is 0 if and only if \<open>v\<close> is 0.
\<close>

theorem blind_then_decrypt_zero_iff:
  assumes "lib_contract_mod cr t" and "500 < t" and "0 \<le> v" and "v \<le> 5"
  shows "1 \<le> randint 1 100 raw \<and> randint 1 100 raw \<le> 100 \<and>
         decrypt_first cr (blind_multiply_random cr raw (encrypt_int cr v))
           = Inr (randint 1 100 raw * v) \<and>
         (randint 1 100 raw * v = 0) = (v = 0)"
proof -
  let ?r = "randint 1 100 raw"
  have r: "1 \<le> ?r" "?r \<le> 100"
    using randint_1_100 [of raw] by simp_all
  have lo: "0 \<le> ?r * v"
    using r assms(3) by simp
  have "?r * v \<le> 100 * 5"
    using r assms(3,4) by (intro mult_mono) simp_all
  with assms(2) have hi: "?r * v < t" by simp
  have "decrypt_first cr (blind_multiply_random cr raw (encrypt_int cr v)) = Inr ((?r * v) mod t)"
    using assms(1) by (simp add: lib_contract_mod_def blind_multiply_random_def Let_def)
  moreover have "(?r * v) mod t = ?r * v"
    using lo hi by simp
  moreover have "(?r * v = 0) = (v = 0)"
    using r by simp
  ultimately show ?thesis using r by simp
qed

text \<open>
  C1. On a defender whose encrypted board is the encryption of its grid, with a library
  that meets the exact contract, a guess at a coordinate of the 10 x 10 board that has
  not been shot returns true when the grid holds a ship id there and false when it holds
  0 (water).
\<close>

theorem process_guess_hit_iff_ship:
  assumes "lib_contract (crypto d)"
    and "encrypted_grid (crypto d) (board d) = Inr (enc_board d)"
    and "board_size (board d) = BOARD_SIZE"
    and "0 \<le> x" and "x < 10" and "0 \<le> y" and "y < 10"
    and "getitem2 (hits (board d)) x y = Inr False"
  shows "\<exists>v res. getitem2 (grid (board d)) x y = Inr v \<and>
           process_guess a d x y raw = Inr res \<and>
           (v \<noteq> 0 \<longrightarrow> returned res = True) \<and> (v = 0 \<longrightarrow> returned res = False)"
proof -
  let ?n = "nat (board_size (board d))"
  have n: "?n = 10" using assms(3) by (simp add: BOARD_SIZE_def)
  have xy: "nat x < ?n" "nat y < ?n" using n assms(4-7) by simp_all
  from encrypted_grid_cell [OF assms(2) xy] assms(4,6)
  obtain v where v: "getitem2 (grid (board d)) x y = Inr v"
    and e: "enc_board d ! nat x ! nat y = encrypt_int (crypto d) v"
    by auto
  have sq: "square 10 (enc_board d)"
    using encrypted_grid_shape [OF assms(2)] n by simp
  have c: "getitem2 (enc_board d) x y = Inr (encrypt_int (crypto d) v)"
    using square_index(3) [OF sq, of x y] assms(4-7) e by simp
  let ?r = "randint 1 100 raw"
  have m: "decrypt_first (crypto d)
             (blind_multiply_random (crypto d) raw (encrypt_int (crypto d) v)) = Inr (?r * v)"
    using assms(1) by (simp add: lib_contract_def blind_multiply_random_def Let_def)
  have z: "(?r * v \<noteq> 0) = (v \<noteq> 0)"
    using randint_1_100 [of raw] by simp
  from process_guess_fresh [OF assms(8) c m, of a] obtain res
    where "process_guess a d x y raw = Inr res" and "returned res = (?r * v \<noteq> 0)"
    by auto
  with v z show ?thesis by auto
qed

section \<open>Evaluation on a concrete game\<close>

lemma clear_crypto_contract: "lib_contract clear_crypto"
  by (simp add: lib_contract_def clear_crypto_def decrypt_first_def encrypt_int_def
      getitem_def py_index_def mult.commute)

lemma mod_crypto_contract: "lib_contract_mod (mod_crypto t) t"
  by (simp add: lib_contract_mod_def mod_crypto_def decrypt_first_def encrypt_int_def
      getitem_def py_index_def mult.commute mod_mult_eq)

lemma demo_encrypted: "encrypted_grid (crypto demo_player) (board demo_player) = Inr (enc_board demo_player)"
  by code_simp

lemma demo_placed: "place_ships_random Board_default demo_draws = Some (Inr demo_board)"
  by code_simp

lemma demo_hits_fresh: "getitem2 (hits (board demo_player)) 0 0 = Inr False"
  by code_simp

lemma demo_enc_cell: "getitem2 (enc_board demo_player) 0 0 = Inr [1]"
  by code_simp

lemma demo_decrypt:
  "decrypt_first (crypto demo_player) (blind_multiply_random (crypto demo_player) 7 [1]) = Inr 8"
  by code_simp

lemma demo_grid_cell: "getitem2 (grid (board demo_player)) 0 0 = Inr 1"
  by code_simp

lemma demo_size: "board_size (board demo_player) = BOARD_SIZE"
  by code_simp

theorem process_guess_hit_iff_ship_witness:
  "lib_contract (crypto demo_player) \<and>
   encrypted_grid (crypto demo_player) (board demo_player) = Inr (enc_board demo_player) \<and>
   board_size (board demo_player) = BOARD_SIZE \<and>
   getitem2 (hits (board demo_player)) 0 0 = Inr False \<and>
   getitem2 (grid (board demo_player)) 0 0 = Inr 1 \<and>
   (\<exists>res. process_guess demo_player demo_player 0 0 7 = Inr res \<and> returned res = True)"
proof -
  have c: "lib_contract (crypto demo_player)"
    using clear_crypto_contract by (simp add: demo_player_def)
  from process_guess_hit_iff_ship [OF c demo_encrypted demo_size _ _ _ _ demo_hits_fresh,
      where a = demo_player and raw = 7]
  have "\<exists>res. process_guess demo_player demo_player 0 0 7 = Inr res \<and> returned res = True"
    using demo_grid_cell by auto
  with c demo_encrypted demo_size demo_hits_fresh demo_grid_cell show ?thesis
    by blast
qed

theorem blind_then_decrypt_zero_iff_witness:
  "lib_contract_mod demo_mod_crypto 4294967291 \<and> (500::int) < 4294967291 \<and>
   (0::int) \<le> 3 \<and> (3::int) \<le> 5 \<and>
   decrypt_first demo_mod_crypto (blind_multiply_random demo_mod_crypto 41 (encrypt_int demo_mod_crypto 3))
     = Inr 126"
proof -
  have c: "lib_contract_mod demo_mod_crypto 4294967291"
    unfolding demo_mod_crypto_def by (rule mod_crypto_contract)
  have r: "randint 1 100 41 = 42"
    by (simp add: randint_def)
  from blind_then_decrypt_zero_iff [OF c, of 3 41] r c show ?thesis
    by simp
qed

theorem process_guess_already_shot_witness:
  "getitem2 (hits (board demo_player_shot)) 0 0 = Inr True \<and>
   (\<exists>res. process_guess demo_player demo_player_shot 0 0 7 = Inr res \<and>
      returned res = False \<and> lib_calls res = [] \<and> defender_after res = demo_player_shot)"
proof -
  have h: "getitem2 (hits (board demo_player_shot)) 0 0 = Inr True"
    by code_simp
  from process_guess_already_shot [OF h, of demo_player 7] h show ?thesis
    by blast
qed

theorem process_guess_register_shot_true_witness:
  "getitem2 (hits (board demo_player)) 0 0 = Inr False \<and>
   (\<exists>res. process_guess demo_player demo_player 0 0 7 = Inr res \<and>
      register_shot_returned res = Some True) \<and>
   (\<exists>b'. register_shot (board demo_player) 0 0 False = Inr (True, b'))"
proof -
  from process_guess_fresh [OF demo_hits_fresh demo_enc_cell demo_decrypt, of demo_player]
  obtain res where res: "process_guess demo_player demo_player 0 0 7 = Inr res"
    by blast
  from process_guess_register_shot_true [of demo_player demo_player 0 0 7] res demo_hits_fresh
  show ?thesis by blast
qed


section \<open>Placing ships\<close>

lemma square_update:
  assumes "square n g" and "i0 < n" and "j0 < n"
  shows "square n (g[i0 := (g ! i0)[j0 := v]])"
proof -
  have "length ((g ! i0)[j0 := v]) = n"
    using assms by (simp add: square_def)
  moreover have "set (g[i0 := (g ! i0)[j0 := v]]) \<subseteq> insert ((g ! i0)[j0 := v]) (set g)"
    by (rule set_update_subset_insert)
  ultimately show ?thesis
    using assms(1) by (auto simp: square_def)
qed

lemma cell_update:
  assumes "square n g" and "i0 < n" and "j0 < n" and "i < n" and "j < n"
  shows "g[i0 := (g ! i0)[j0 := v]] ! i ! j = (if i = i0 \<and> j = j0 then v else g ! i ! j)"
  using assms by (auto simp: square_def nth_list_update)

lemma stamp_H_Suc:
  "stamp_H g row col (Suc len) v =
     (stamp_H g row col len v)[row := (stamp_H g row col len v ! row)[col + len := v]]"
  by (simp add: stamp_H_def)

lemma stamp_V_Suc:
  "stamp_V g row col (Suc len) v =
     (stamp_V g row col len v)[row + len := (stamp_V g row col len v ! (row + len))[col := v]]"
  by (simp add: stamp_V_def)

lemma stamp_H_cells:
  assumes "square n g" and "row < n" and "col + len \<le> n"
  shows "square n (stamp_H g row col len v) \<and>
         (\<forall>i<n. \<forall>j<n. stamp_H g row col len v ! i ! j =
            (if (i, j) \<in> segment H row col len then v else g ! i ! j))"
  using assms(3)
proof (induction len)
  case 0
  then show ?case using assms(1) by (simp add: stamp_H_def segment_def)
next
  case (Suc len)
  let ?g = "stamp_H g row col len v"
  from Suc have sq: "square n ?g"
    and old: "\<forall>i<n. \<forall>j<n. ?g ! i ! j = (if (i, j) \<in> segment H row col len then v else g ! i ! j)"
    by simp_all
  have c: "col + len < n" using Suc.prems by simp
  have "square n (stamp_H g row col (Suc len) v)"
    unfolding stamp_H_Suc using sq assms(2) c by (rule square_update)
  moreover have "stamp_H g row col (Suc len) v ! i ! j =
            (if (i, j) \<in> segment H row col (Suc len) then v else g ! i ! j)"
    if "i < n" and "j < n" for i j
  proof -
    have "stamp_H g row col (Suc len) v ! i ! j = (if i = row \<and> j = col + len then v else ?g ! i ! j)"
      unfolding stamp_H_Suc using sq assms(2) c that by (rule cell_update)
    also have "\<dots> = (if (i, j) \<in> segment H row col (Suc len) then v else g ! i ! j)"
      using old that by (auto simp: segment_def)
    finally show ?thesis .
  qed
  ultimately show ?case by blast
qed

lemma stamp_V_cells:
  assumes "square n g" and "row + len \<le> n" and "col < n"
  shows "square n (stamp_V g row col len v) \<and>
         (\<forall>i<n. \<forall>j<n. stamp_V g row col len v ! i ! j =
            (if (i, j) \<in> segment V row col len then v else g ! i ! j))"
  using assms(2)
proof (induction len)
  case 0
  then show ?case using assms(1) by (simp add: stamp_V_def segment_def)
next
  case (Suc len)
  let ?g = "stamp_V g row col len v"
  from Suc have sq: "square n ?g"
    and old: "\<forall>i<n. \<forall>j<n. ?g ! i ! j = (if (i, j) \<in> segment V row col len then v else g ! i ! j)"
    by simp_all
  have r: "row + len < n" using Suc.prems by simp
  have "square n (stamp_V g row col (Suc len) v)"
    unfolding stamp_V_Suc using sq r assms(3) by (rule square_update)
  moreover have "stamp_V g row col (Suc len) v ! i ! j =
            (if (i, j) \<in> segment V row col (Suc len) then v else g ! i ! j)"
    if "i < n" and "j < n" for i j
  proof -
    have "stamp_V g row col (Suc len) v ! i ! j = (if i = row + len \<and> j = col then v else ?g ! i ! j)"
      unfolding stamp_V_Suc using sq r assms(3) that by (rule cell_update)
    also have "\<dots> = (if (i, j) \<in> segment V row col (Suc len) then v else g ! i ! j)"
      using old that by (auto simp: segment_def)
    finally show ?thesis .
  qed
  ultimately show ?case by blast
qed

lemma randrange_Inr:
  assumes "randrange m raw = Inr k"
  shows "0 < m \<and> int k < m"
proof -
  from assms have m: "0 < m" and k: "k = raw mod nat m"
    by (auto simp: randrange_def split: if_splits)
  from m have "raw mod nat m < nat m" by simp
  with m k show ?thesis by linarith
qed

lemma segment_in_grid:
  "in_grid n orient row col len \<Longrightarrow> (i, j) \<in> segment orient row col len \<Longrightarrow> i < n \<and> j < n"
  by (cases orient) (auto simp: in_grid_def segment_def)

lemma card_segment: "card (segment orient row col len) = len"
proof (cases orient)
  case H
  have "segment H row col len = (\<lambda>j. (row, j)) ` {col..<col + len}"
    by (auto simp: segment_def)
  moreover have "inj_on (\<lambda>j. (row, j)) {col..<col + len}"
    by (simp add: inj_on_def)
  ultimately show ?thesis using H by (simp add: card_image)
next
  case V
  have "segment V row col len = (\<lambda>i. (i, col)) ` {row..<row + len}"
    by (auto simp: segment_def)
  moreover have "inj_on (\<lambda>i. (i, col)) {row..<row + len}"
    by (simp add: inj_on_def)
  ultimately show ?thesis using V by (simp add: card_image)
qed

lemma finite_segment: "finite (segment orient row col len)"
proof (cases orient)
  case H
  have "segment H row col len = (\<lambda>j. (row, j)) ` {col..<col + len}"
    by (auto simp: segment_def)
  then show ?thesis using H by simp
next
  case V
  have "segment V row col len = (\<lambda>i. (i, col)) ` {row..<row + len}"
    by (auto simp: segment_def)
  then show ?thesis using V by simp
qed

lemma place_attempt_placed:
  assumes "place_attempt b len v d = Inr (Some b')" and "square n (grid b)"
    and "board_size b = int n"
  shows "\<exists>orient row col. in_grid n orient row col len \<and>
           (\<forall>(i, j) \<in> segment orient row col len. grid b ! i ! j = 0) \<and>
           square n (grid b') \<and>
           (\<forall>i<n. \<forall>j<n. grid b' ! i ! j =
              (if (i, j) \<in> segment orient row col len then v else grid b ! i ! j)) \<and>
           board_size b' = board_size b \<and> hits b' = hits b \<and>
           hits_count b' = hits_count b \<and> total_ship_cells b' = total_ship_cells b"
proof -
  obtain orient raw1 raw2 where d: "d = (orient, raw1, raw2)"
    by (cases d) auto
  show ?thesis
  proof (cases orient)
    case H
    from assms(1) d H obtain row col where
      row: "randrange (board_size b) raw1 = Inr row"
      and col: "randrange (board_size b - int len + 1) raw2 = Inr col"
      and free: "list_all (\<lambda>i. grid b ! row ! (col + i) = 0) [0..<len]"
      and b': "b' = b\<lparr>grid := stamp_H (grid b) row col len v\<rparr>"
      by (auto simp: place_attempt_def split: sum.splits if_splits)
    from randrange_Inr [OF row] randrange_Inr [OF col] assms(3)
    have fit: "row < n" "col + len \<le> n" by simp_all
    then have ig: "in_grid n H row col len" by (simp add: in_grid_def)
    have fr: "\<forall>(i, j) \<in> segment H row col len. grid b ! i ! j = 0"
    proof (clarify)
      fix i j assume "(i, j) \<in> segment H row col len"
      then have "i = row" and "col \<le> j" and "j - col < len"
        by (auto simp: segment_def)
      moreover from free have "\<forall>k<len. grid b ! row ! (col + k) = 0"
        by (simp add: list_all_iff)
      ultimately have "grid b ! row ! (col + (j - col)) = 0"
        by blast
      with \<open>i = row\<close> \<open>col \<le> j\<close> show "grid b ! i ! j = 0" by simp
    qed
    from stamp_H_cells [OF assms(2) fit, of v] b' ig fr show ?thesis
      by (intro exI [of _ H] exI [of _ row] exI [of _ col]) simp
  next
    case V
    from assms(1) d V obtain row col where
      row: "randrange (board_size b - int len + 1) raw1 = Inr row"
      and col: "randrange (board_size b) raw2 = Inr col"
      and free: "list_all (\<lambda>i. grid b ! (row + i) ! col = 0) [0..<len]"
      and b': "b' = b\<lparr>grid := stamp_V (grid b) row col len v\<rparr>"
      by (auto simp: place_attempt_def split: sum.splits if_splits)
    from randrange_Inr [OF row] randrange_Inr [OF col] assms(3)
    have fit: "row + len \<le> n" "col < n" by simp_all
    then have ig: "in_grid n V row col len" by (simp add: in_grid_def)
    have fr: "\<forall>(i, j) \<in> segment V row col len. grid b ! i ! j = 0"
    proof (clarify)
      fix i j assume "(i, j) \<in> segment V row col len"
      then have "j = col" and "row \<le> i" and "i - row < len"
        by (auto simp: segment_def)
      moreover from free have "\<forall>k<len. grid b ! (row + k) ! col = 0"
        by (simp add: list_all_iff)
      ultimately have "grid b ! (row + (i - row)) ! col = 0"
        by blast
      with \<open>j = col\<close> \<open>row \<le> i\<close> show "grid b ! i ! j = 0" by simp
    qed
    from stamp_V_cells [OF assms(2) fit, of v] b' ig fr show ?thesis
      by (intro exI [of _ V] exI [of _ row] exI [of _ col]) simp
  qed
qed

lemma place_ship_placed:
  assumes "place_ship b len v ds = Some (Inr b', ds')" and "square n (grid b)"
    and "board_size b = int n"
  shows "\<exists>orient row col. in_grid n orient row col len \<and>
           (\<forall>(i, j) \<in> segment orient row col len. grid b ! i ! j = 0) \<and>
           square n (grid b') \<and>
           (\<forall>i<n. \<forall>j<n. grid b' ! i ! j =
              (if (i, j) \<in> segment orient row col len then v else grid b ! i ! j)) \<and>
           board_size b' = board_size b \<and> hits b' = hits b \<and>
           hits_count b' = hits_count b \<and> total_ship_cells b' = total_ship_cells b"
  using assms(1)
proof (induction ds)
  case Nil
  then show ?case by simp
next
  case (Cons d ds)
  show ?case
  proof (cases "place_attempt b len v d")
    case (Inl e)
    with Cons.prems show ?thesis by simp
  next
    case (Inr r)
    show ?thesis
    proof (cases r)
      case None
      with Inr Cons show ?thesis by simp
    next
      case (Some b1)
      with Inr Cons.prems have "place_attempt b len v d = Inr (Some b')" by simp
      from place_attempt_placed [OF this assms(2,3)] show ?thesis .
    qed
  qed
qed

section \<open>The placement loop\<close>

lemma ship_cells_square:
  assumes "square n g"
  shows "ship_cells g = {(i, j). i < n \<and> j < n \<and> g ! i ! j \<noteq> 0}"
  using assms by (auto simp: ship_cells_def square_def)

lemma cells_with_square:
  assumes "square n g"
  shows "cells_with g v = {(i, j). i < n \<and> j < n \<and> g ! i ! j = v}"
  using assms by (auto simp: cells_with_def square_def)

lemma finite_ship_cells: "finite (ship_cells g)"
proof -
  have "ship_cells g \<subseteq> (\<Union>i\<in>{..<length g}. (\<lambda>j. (i, j)) ` {..<length (g ! i)})"
    by (auto simp: ship_cells_def)
  moreover have "finite (\<Union>i\<in>{..<length g}. (\<lambda>j. (i, j)) ` {..<length (g ! i)})"
    by simp
  ultimately show ?thesis by (rule finite_subset)
qed

lemma step_ship_cells:
  assumes sq: "square n g" and sq1: "square n g1" and ig: "in_grid n orient row col len"
    and free: "\<forall>(i, j) \<in> segment orient row col len. g ! i ! j = 0"
    and new: "\<forall>i<n. \<forall>j<n. g1 ! i ! j = (if (i, j) \<in> segment orient row col len then v else g ! i ! j)"
    and v: "0 < v"
  shows "ship_cells g1 = ship_cells g \<union> segment orient row col len"
    and "ship_cells g \<inter> segment orient row col len = {}"
proof -
  have pt: "(g1 ! i ! j \<noteq> 0) = (g ! i ! j \<noteq> 0 \<or> (i, j) \<in> segment orient row col len)"
    if ij: "i < n" "j < n" for i j
  proof (cases "(i, j) \<in> segment orient row col len")
    case True
    with new ij have "g1 ! i ! j = v" by simp
    with v True show ?thesis by simp
  next
    case False
    with new ij have "g1 ! i ! j = g ! i ! j" by simp
    with False show ?thesis by simp
  qed
  show "ship_cells g1 = ship_cells g \<union> segment orient row col len"
    unfolding ship_cells_square [OF sq] ship_cells_square [OF sq1]
    using pt segment_in_grid [OF ig] by auto
  show "ship_cells g \<inter> segment orient row col len = {}"
    unfolding ship_cells_square [OF sq] using free by auto
qed

lemma step_card:
  assumes sq: "square n g" and sq1: "square n g1" and ig: "in_grid n orient row col len"
    and free: "\<forall>(i, j) \<in> segment orient row col len. g ! i ! j = 0"
    and new: "\<forall>i<n. \<forall>j<n. g1 ! i ! j = (if (i, j) \<in> segment orient row col len then v else g ! i ! j)"
    and v: "0 < v"
  shows "card (ship_cells g1) = card (ship_cells g) + len"
proof -
  from step_ship_cells [OF assms]
  have "card (ship_cells g1) = card (ship_cells g) + card (segment orient row col len)"
    by (simp add: card_Un_disjoint finite_ship_cells finite_segment)
  then show ?thesis by (simp add: card_segment)
qed

lemma place_ships_inv:
  assumes "place_ships b v lens ds = Some (Inr b')" and "square n (grid b)"
    and "board_size b = int n" and "0 < v"
    and "\<forall>i<n. \<forall>j<n. 0 \<le> grid b ! i ! j \<and> grid b ! i ! j < v"
  shows "placed_from n b v lens b'"
  using assms
proof (induction lens arbitrary: b v ds)
  case Nil
  then show ?case by (simp add: placed_from_def)
next
  case (Cons len lens)
  from Cons.prems(1) obtain b1 ds1 where
    p1: "place_ship b len v ds = Some (Inr b1, ds1)"
    and p2: "place_ships (b1\<lparr>total_ship_cells := total_ship_cells b1 + int len\<rparr>) (v + 1) lens ds1
               = Some (Inr b')"
    by (auto split: option.splits sum.splits prod.splits)
  let ?b2 = "b1\<lparr>total_ship_cells := total_ship_cells b1 + int len\<rparr>"
  from place_ship_placed [OF p1 Cons.prems(2,3)] obtain orient row col where
    ig: "in_grid n orient row col len"
    and free: "\<forall>(i, j) \<in> segment orient row col len. grid b ! i ! j = 0"
    and sq1: "square n (grid b1)"
    and new: "\<forall>i<n. \<forall>j<n. grid b1 ! i ! j =
              (if (i, j) \<in> segment orient row col len then v else grid b ! i ! j)"
    and frame: "board_size b1 = board_size b" "hits b1 = hits b"
      "hits_count b1 = hits_count b" "total_ship_cells b1 = total_ship_cells b"
    by blast
  have range1: "\<forall>i<n. \<forall>j<n. 0 \<le> grid ?b2 ! i ! j \<and> grid ?b2 ! i ! j < v + 1"
    using new Cons.prems(4,5) by (simp add: less_imp_le)
  have "placed_from n ?b2 (v + 1) lens b'"
    using p2 sq1 frame(1) Cons.prems(3,4) range1
    by (intro Cons.IH [of ?b2 "v + 1" ds1]) simp_all
  then have
    sq': "square n (grid b')"
    and fr': "board_size b' = board_size b" "hits b' = hits b" "hits_count b' = hits_count b"
    and tot': "total_ship_cells b' = total_ship_cells b + int len + int (sum_list lens)"
    and ch': "\<forall>i<n. \<forall>j<n. grid b' ! i ! j = grid b1 ! i ! j \<or>
          (grid b1 ! i ! j = 0 \<and> v + 1 \<le> grid b' ! i ! j \<and>
           grid b' ! i ! j < v + 1 + int (length lens))"
    and sg': "\<forall>k<length lens. \<exists>orient row col. in_grid n orient row col (lens ! k) \<and>
          cells_with (grid b') (v + 1 + int k) = segment orient row col (lens ! k)"
    and cd': "card (ship_cells (grid b')) = card (ship_cells (grid b1)) + sum_list lens"
    using frame by (simp_all add: placed_from_def)
  have ch: "grid b' ! i ! j = grid b ! i ! j \<or>
          (grid b ! i ! j = 0 \<and> v \<le> grid b' ! i ! j \<and>
           grid b' ! i ! j < v + int (length (len # lens)))"
    if ij: "i < n" "j < n" for i j
  proof (cases "(i, j) \<in> segment orient row col len")
    case True
    with new ij have b1: "grid b1 ! i ! j = v" by simp
    with ch' ij Cons.prems(4) have "grid b' ! i ! j = v" by force
    moreover from free True have "grid b ! i ! j = 0" by blast
    ultimately show ?thesis by simp
  next
    case False
    with new ij have "grid b1 ! i ! j = grid b ! i ! j" by simp
    with ch' ij show ?thesis by force
  qed
  have seg0: "cells_with (grid b') v = segment orient row col len"
  proof -
    have "(grid b' ! i ! j = v) = ((i, j) \<in> segment orient row col len)"
      if ij: "i < n" "j < n" for i j
    proof (cases "(i, j) \<in> segment orient row col len")
      case True
      with new ij have "grid b1 ! i ! j = v" by simp
      with ch' ij Cons.prems(4) have "grid b' ! i ! j = v" by force
      with True show ?thesis by simp
    next
      case False
      with new ij have e: "grid b1 ! i ! j = grid b ! i ! j" by simp
      from Cons.prems(5) ij have "grid b ! i ! j < v" by simp
      with e ch' ij have "grid b' ! i ! j \<noteq> v" by force
      with False show ?thesis by simp
    qed
    then show ?thesis
      unfolding cells_with_square [OF sq'] using segment_in_grid [OF ig] by auto
  qed
  have sg: "\<exists>orient row col. in_grid n orient row col ((len # lens) ! k) \<and>
          cells_with (grid b') (v + int k) = segment orient row col ((len # lens) ! k)"
    if k: "k < length (len # lens)" for k
  proof (cases k)
    case 0
    with ig seg0 show ?thesis by auto
  next
    case (Suc k')
    with k have "k' < length lens" by simp
    with sg' obtain o' r' c' where "in_grid n o' r' c' (lens ! k')"
      "cells_with (grid b') (v + 1 + int k') = segment o' r' c' (lens ! k')"
      by blast
    moreover have "v + 1 + int k' = v + int k" using Suc by simp
    ultimately show ?thesis using Suc by auto
  qed
  have cd: "card (ship_cells (grid b')) = card (ship_cells (grid b)) + sum_list (len # lens)"
    using cd' step_card [OF Cons.prems(2) sq1 ig free new Cons.prems(4)] by simp
  have tot: "total_ship_cells b' = total_ship_cells b + int (sum_list (len # lens))"
    using tot' by simp
  have all1: "\<forall>i<n. \<forall>j<n. grid b' ! i ! j = grid b ! i ! j \<or>
          (grid b ! i ! j = 0 \<and> v \<le> grid b' ! i ! j \<and>
           grid b' ! i ! j < v + int (length (len # lens)))"
    using ch by blast
  have all2: "\<forall>k<length (len # lens). \<exists>orient row col.
          in_grid n orient row col ((len # lens) ! k) \<and>
          cells_with (grid b') (v + int k) = segment orient row col ((len # lens) ! k)"
    using sg by blast
  show ?case
    unfolding placed_from_def
    using sq' fr' tot all1 all2 cd by (intro conjI)
qed

lemma place_ships_random_placed_from:
  assumes "place_ships_random b0 ds = Some (Inr b)" and "board_size b0 = int n"
  shows "placed_from n
           (b0\<lparr> grid := replicate n (replicate n 0), hits := replicate n (replicate n False),
                total_ship_cells := 0, hits_count := 0 \<rparr>)
           1 SHIP_SIZES b"
proof -
  let ?b = "b0\<lparr> grid := replicate n (replicate n 0), hits := replicate n (replicate n False),
                total_ship_cells := 0, hits_count := 0 \<rparr>"
  have run: "place_ships ?b 1 SHIP_SIZES ds = Some (Inr b)"
    using assms by (simp add: place_ships_random_def)
  have sq: "square n (grid ?b)"
    by (simp add: square_def)
  have sz: "board_size ?b = int n"
    using assms(2) by simp
  have rng: "\<forall>i<n. \<forall>j<n. 0 \<le> grid ?b ! i ! j \<and> grid ?b ! i ! j < 1"
    by simp
  show ?thesis
    by (rule place_ships_inv [OF run sq sz _ rng]) simp
qed

lemma ship_cells_empty: "ship_cells (replicate n (replicate n 0)) = {}"
  by (auto simp: ship_cells_def)

text \<open>
  C6. When \<open>place_ships_random\<close> returns on a board of size 10, the grid has 10 rows of
  10 cells; the number of cells that are not 0, \<open>total_ship_cells\<close> and the sum of
  \<open>SHIP_SIZES\<close> are all 16; for each of the five ships, the cells holding its id
  \<open>k + 1\<close> are exactly a horizontal or vertical segment of length \<open>SHIP_SIZES[k]\<close>
  lying inside the grid (so no ship lost a cell to another); every cell holds 0 or an
  id of \<open>1..5\<close>; all \<open>hits\<close> flags are false and \<open>hits_count\<close> is 0.
\<close>

theorem place_ships_random_spec:
  assumes "place_ships_random b0 ds = Some (Inr b)" and "board_size b0 = BOARD_SIZE"
  shows "square 10 (grid b) \<and>
         card (ship_cells (grid b)) = 16 \<and> total_ship_cells b = 16 \<and>
         sum_list SHIP_SIZES = 16 \<and>
         (\<forall>k<5. \<exists>orient row col.
             in_grid 10 orient row col (SHIP_SIZES ! k) \<and>
             cells_with (grid b) (int k + 1) = segment orient row col (SHIP_SIZES ! k) \<and>
             card (cells_with (grid b) (int k + 1)) = SHIP_SIZES ! k) \<and>
         (\<forall>i<10. \<forall>j<10. 0 \<le> grid b ! i ! j \<and> grid b ! i ! j \<le> 5) \<and>
         hits b = replicate 10 (replicate 10 False) \<and> hits_count b = 0 \<and>
         board_size b = 10"
proof -
  have sz: "board_size b0 = int 10"
    using assms(2) by (simp add: BOARD_SIZE_def)
  note pf = place_ships_random_placed_from [OF assms(1) sz, unfolded placed_from_def]
  have len: "length SHIP_SIZES = 5" and sum: "sum_list SHIP_SIZES = 16"
    by (simp_all add: SHIP_SIZES_def)
  from pf have sq: "square 10 (grid b)" by simp
  from pf sz have fr: "hits b = replicate 10 (replicate 10 False)" "hits_count b = 0"
    "board_size b = 10"
    by simp_all
  from pf sum have tot: "total_ship_cells b = 16" by simp
  from pf sum have cd: "card (ship_cells (grid b)) = 16"
    by (simp add: ship_cells_empty)
  from pf len have ch: "\<forall>i<10. \<forall>j<10. grid b ! i ! j = 0 \<or>
      (1 \<le> grid b ! i ! j \<and> grid b ! i ! j < 1 + 5)"
    by simp
  have rng: "\<forall>i<10. \<forall>j<10. 0 \<le> grid b ! i ! j \<and> grid b ! i ! j \<le> 5"
  proof (intro allI impI)
    fix i j :: nat assume "i < 10" "j < 10"
    with ch have "grid b ! i ! j = 0 \<or> (1 \<le> grid b ! i ! j \<and> grid b ! i ! j < 1 + 5)"
      by blast
    then show "0 \<le> grid b ! i ! j \<and> grid b ! i ! j \<le> 5" by auto
  qed
  from pf len have sg: "\<forall>k<5. \<exists>orient row col. in_grid 10 orient row col (SHIP_SIZES ! k) \<and>
          cells_with (grid b) (1 + int k) = segment orient row col (SHIP_SIZES ! k)"
    by simp
  have ships: "\<forall>k<5. \<exists>orient row col.
             in_grid 10 orient row col (SHIP_SIZES ! k) \<and>
             cells_with (grid b) (int k + 1) = segment orient row col (SHIP_SIZES ! k) \<and>
             card (cells_with (grid b) (int k + 1)) = SHIP_SIZES ! k"
  proof (intro allI impI)
    fix k :: nat assume "k < 5"
    with sg obtain orient row col where ig: "in_grid 10 orient row col (SHIP_SIZES ! k)"
      and cw: "cells_with (grid b) (1 + int k) = segment orient row col (SHIP_SIZES ! k)"
      by blast
    have e: "1 + int k = int k + 1" by simp
    from cw have "card (cells_with (grid b) (int k + 1)) = SHIP_SIZES ! k"
      unfolding e by (simp add: card_segment)
    with ig cw show "\<exists>orient row col.
             in_grid 10 orient row col (SHIP_SIZES ! k) \<and>
             cells_with (grid b) (int k + 1) = segment orient row col (SHIP_SIZES ! k) \<and>
             card (cells_with (grid b) (int k + 1)) = SHIP_SIZES ! k"
      unfolding e by blast
  qed
  from sq cd tot sum ships rng fr show ?thesis
    by (intro conjI)
qed

theorem place_ships_random_spec_witness:
  "place_ships_random Board_default demo_draws = Some (Inr demo_board) \<and>
   board_size Board_default = BOARD_SIZE \<and>
   card (ship_cells (grid demo_board)) = 16 \<and> total_ship_cells demo_board = 16 \<and>
   hits_count demo_board = 0"
proof -
  have sz: "board_size Board_default = BOARD_SIZE"
    by (simp add: Board_default_def)
  from place_ships_random_spec [OF demo_placed sz] demo_placed sz show ?thesis
    by simp
qed

section \<open>The protocol invariant\<close>

lemma py_index_length: "length xs = length ys \<Longrightarrow> py_index xs k = py_index ys k"
  by (simp add: py_index_def)

lemma hit_cells_square:
  assumes "square n (grid b)" and "square n (hits b)"
  shows "hit_cells b = {(i, j). i < n \<and> j < n \<and> grid b ! i ! j \<noteq> 0 \<and> hits b ! i ! j}"
  using assms by (auto simp: hit_cells_def ship_cells_def square_def)

lemma hit_cells_subset: "hit_cells b \<subseteq> ship_cells (grid b)"
  by (auto simp: hit_cells_def)

lemma finite_hit_cells: "finite (hit_cells b)"
  using hit_cells_subset finite_ship_cells by (rule finite_subset)

lemma encrypted_grid_frame:
  "grid b' = grid b \<Longrightarrow> board_size b' = board_size b \<Longrightarrow>
   encrypted_grid cr b' = encrypted_grid cr b"
  by (simp add: encrypted_grid_def)

lemma hit_cells_shot:
  assumes sg: "square n (grid b)" and sh: "square n (hits b)" and i: "i < n" and j: "j < n"
    and fresh: "\<not> hits b ! i ! j"
    and b': "grid b' = grid b" "hits b' = (hits b)[i := (hits b ! i)[j := True]]"
  shows "card (hit_cells b') = card (hit_cells b) + (if grid b ! i ! j \<noteq> 0 then 1 else 0)"
proof -
  have sh': "square n (hits b')"
    unfolding b'(2) using sh i j by (rule square_update)
  have sg': "square n (grid b')"
    using sg b'(1) by simp
  have cell: "hits b' ! a ! c = (if a = i \<and> c = j then True else hits b ! a ! c)"
    if "a < n" "c < n" for a c
    unfolding b'(2) using sh i j that by (rule cell_update)
  have notin: "(i, j) \<notin> hit_cells b"
    unfolding hit_cells_square [OF sg sh] using fresh by simp
  show ?thesis
  proof (cases "grid b ! i ! j \<noteq> 0")
    case True
    have "hit_cells b' = insert (i, j) (hit_cells b)"
      unfolding hit_cells_square [OF sg sh] hit_cells_square [OF sg' sh']
      using cell True i j b'(1) by (auto split: if_splits)
    with notin True show ?thesis
      by (simp add: finite_hit_cells)
  next
    case False
    have "hit_cells b' = hit_cells b"
      unfolding hit_cells_square [OF sg sh] hit_cells_square [OF sg' sh']
      using cell False b'(1) by (auto split: if_splits)
    with False show ?thesis by simp
  qed
qed

lemma process_guess_step:
  assumes inv: "protocol_inv n d" and r: "process_guess a d x y raw = Inr res"
  shows "protocol_inv n (defender_after res) \<and>
         grid (board (defender_after res)) = grid (board d) \<and>
         total_ship_cells (board (defender_after res)) = total_ship_cells (board d) \<and>
         hits_count (board d) \<le> hits_count (board (defender_after res))"
proof -
  from r obtain already where al: "getitem2 (hits (board d)) x y = Inr already"
    by (auto simp: process_guess_def split: sum.splits)
  show ?thesis
  proof (cases already)
    case True
    with r al have "defender_after res = d"
      by (auto simp: process_guess_def)
    with inv show ?thesis by simp
  next
    case False
    let ?b = "board d"
    from inv have sg: "square n (grid ?b)" and sh: "square n (hits ?b)"
      and sz: "board_size ?b = int n"
      and enc: "encrypted_grid (crypto d) ?b = Inr (enc_board d)"
      and con: "lib_contract (crypto d)"
      and hc: "hits_count ?b = int (card (hit_cells ?b))"
      and tc: "total_ship_cells ?b = int (card (ship_cells (grid ?b)))"
      by (simp_all add: protocol_inv_def)
    from al False have fresh: "getitem2 (hits ?b) x y = Inr False" by simp
    then obtain i j where pi: "py_index (hits ?b) x = Inr i" and i: "i < length (hits ?b)"
      and pj: "py_index (hits ?b ! i) y = Inr j" and j: "j < length (hits ?b ! i)"
      and v: "\<not> hits ?b ! i ! j"
      by (auto dest!: getitem2_Inr)
    from sh i j have i': "i < n" and j': "j < n"
      by (auto simp: square_def)
    have se: "square n (enc_board d)"
      using encrypted_grid_shape [OF enc] sz by simp
    have "length (enc_board d) = length (hits ?b)"
      using se sh by (simp add: square_def)
    then have ei: "py_index (enc_board d) x = Inr i"
      using pi by (simp add: py_index_length [of "enc_board d" "hits ?b"])
    have "length (enc_board d ! i) = length (hits ?b ! i)"
      using se sh i' by (simp add: square_def)
    then have ej: "py_index (enc_board d ! i) y = Inr j"
      using pj by (simp add: py_index_length [of "enc_board d ! i" "hits ?b ! i"])
    have ec: "getitem2 (enc_board d) x y = Inr (enc_board d ! i ! j)"
      using ei ej by (rule getitem2_of_index)
    from encrypted_grid_cell [OF enc, of i j] i' j' sz square_index_nat [OF sg i' j']
    have cell: "enc_board d ! i ! j = encrypt_int (crypto d) (grid ?b ! i ! j)"
      by auto
    let ?v = "grid ?b ! i ! j"
    let ?m = "randint 1 100 raw * ?v"
    have m: "decrypt_first (crypto d) (blind_multiply_random (crypto d) raw (enc_board d ! i ! j))
               = Inr ?m"
      using con cell by (simp add: lib_contract_def blind_multiply_random_def Let_def)
    have z: "(?m \<noteq> 0) = (?v \<noteq> 0)"
      using randint_1_100 [of raw] by simp
    let ?b' = "?b\<lparr>hits := (hits ?b)[i := (hits ?b ! i)[j := True]],
                  hits_count := (if ?m \<noteq> 0 then hits_count ?b + 1 else hits_count ?b)\<rparr>"
    from process_guess_fresh [OF fresh ec m, of a] pi pj r
    have da: "defender_after res = d\<lparr>board := ?b'\<rparr>"
      by auto
    have card': "card (hit_cells ?b') = card (hit_cells ?b) + (if ?v \<noteq> 0 then 1 else 0)"
      by (rule hit_cells_shot [OF sg sh i' j' v]) simp_all
    have sh': "square n (hits ?b')"
      using square_update [OF sh i' j'] by simp
    have enc': "encrypted_grid (crypto d) ?b' = Inr (enc_board d)"
      using enc encrypted_grid_frame [of ?b' ?b "crypto d"] by simp
    have hc': "hits_count ?b' = int (card (hit_cells ?b'))"
      unfolding card' using hc z by simp
    have "protocol_inv n (d\<lparr>board := ?b'\<rparr>)"
      unfolding protocol_inv_def using sg sh' sz enc' con hc' tc by simp
    moreover have "hits_count ?b \<le> hits_count ?b'" by simp
    ultimately show ?thesis unfolding da by simp
  qed
qed

lemma shoot_all_inv:
  assumes "protocol_inv n d" and "shoot_all a d shots = Inr d'"
  shows "protocol_inv n d' \<and> grid (board d') = grid (board d) \<and>
         total_ship_cells (board d') = total_ship_cells (board d) \<and>
         hits_count (board d) \<le> hits_count (board d')"
  using assms
proof (induction shots arbitrary: d)
  case Nil
  then show ?case by simp
next
  case (Cons s shots)
  obtain x y raw where s: "s = (x, y, raw)" by (cases s) auto
  from Cons.prems(2) s obtain res where
    r: "process_guess a d x y raw = Inr res"
    and rest: "shoot_all a (defender_after res) shots = Inr d'"
    by (auto split: sum.splits)
  from process_guess_step [OF Cons.prems(1) r] Cons.IH [OF _ rest]
  show ?case by force
qed



lemma protocol_inv_all_sunk:
  assumes "protocol_inv n d"
  shows "all_sunk (board d) = (\<forall>(i, j) \<in> ship_cells (grid (board d)). hits (board d) ! i ! j)"
proof -
  let ?b = "board d"
  from assms have sg: "square n (grid ?b)" and sh: "square n (hits ?b)"
    and hc: "hits_count ?b = int (card (hit_cells ?b))"
    and tc: "total_ship_cells ?b = int (card (ship_cells (grid ?b)))"
    by (simp_all add: protocol_inv_def)
  have "all_sunk ?b = (card (ship_cells (grid ?b)) \<le> card (hit_cells ?b))"
    using hc tc by (simp add: all_sunk_def)
  also have "\<dots> = (hit_cells ?b = ship_cells (grid ?b))"
  proof
    assume "card (ship_cells (grid ?b)) \<le> card (hit_cells ?b)"
    with finite_ship_cells hit_cells_subset show "hit_cells ?b = ship_cells (grid ?b)"
      by (rule card_seteq)
  next
    assume "hit_cells ?b = ship_cells (grid ?b)"
    then show "card (ship_cells (grid ?b)) \<le> card (hit_cells ?b)" by simp
  qed
  also have "\<dots> = (\<forall>(i, j) \<in> ship_cells (grid ?b). hits ?b ! i ! j)"
    unfolding hit_cells_square [OF sg sh] ship_cells_square [OF sg] by auto
  finally show ?thesis .
qed

lemma initial_inv:
  assumes pl: "place_ships_random b0 ds = Some (Inr (board p))"
    and sz: "board_size b0 = BOARD_SIZE"
    and en: "encrypt_board p = Inr d0"
    and con: "lib_contract (crypto p)"
  shows "protocol_inv 10 d0 \<and> board d0 = board p \<and> total_ship_cells (board p) = 16"
proof -
  have sz': "board_size b0 = int 10"
    using sz by (simp add: BOARD_SIZE_def)
  note pf = place_ships_random_placed_from [OF pl sz', unfolded placed_from_def]
  from en obtain e where e: "encrypted_grid (crypto p) (board p) = Inr e"
    and d0: "d0 = p\<lparr>enc_board := e\<rparr>"
    by (auto simp: encrypt_board_def split: sum.splits)
  from pf have sg: "square 10 (grid (board p))" by simp
  from pf have hs: "hits (board p) = replicate 10 (replicate 10 False)" by simp
  then have sh: "square 10 (hits (board p))" by (simp add: square_def)
  from pf sz' have bs: "board_size (board p) = int 10" by simp
  have "hit_cells (board p) = {}"
    unfolding hit_cells_square [OF sg sh] using hs by auto
  moreover from pf have "hits_count (board p) = 0" by simp
  ultimately have hc: "hits_count (board p) = int (card (hit_cells (board p)))" by simp
  from pf have tc: "total_ship_cells (board p) = int (card (ship_cells (grid (board p))))"
    by (simp add: ship_cells_empty)
  from pf have "total_ship_cells (board p) = 16"
    by (simp add: SHIP_SIZES_def)
  then show ?thesis
    unfolding protocol_inv_def d0 using sg sh bs e con hc tc by simp
qed



lemma demo_encrypt_board: "encrypt_board demo_player = Inr demo_player"
  by (simp add: encrypt_board_def demo_encrypted)

lemma demo_first_shot: "shoot_all demo_player demo_player [(0, 0, 7)] = Inr demo_player_shot"
proof -
  have i: "py_index (hits (board demo_player)) 0 = Inr 0"
    by code_simp
  have j: "py_index (hits (board demo_player) ! 0) 0 = Inr 0"
    by code_simp
  have hc: "hits_count (board demo_player) = 0" and b: "board demo_player = demo_board"
    by (simp_all add: demo_player_def demo_board_def)
  from process_guess_fresh [OF demo_hits_fresh demo_enc_cell demo_decrypt, of demo_player] i j
  obtain res where r: "process_guess demo_player demo_player 0 0 7 = Inr res"
    and d: "defender_after res = demo_player\<lparr>board := (board demo_player)
                      \<lparr>hits := (hits (board demo_player))[0 := (hits (board demo_player) ! 0)[0 := True]],
                       hits_count := (if (8::int) \<noteq> 0 then hits_count (board demo_player) + 1
                                      else hits_count (board demo_player))\<rparr>\<rparr>"
    by auto
  from d hc b have "defender_after res = demo_player_shot"
    by (simp add: demo_player_shot_def)
  with r show ?thesis by simp
qed



section \<open>Sequences of shots\<close>


lemma demo_player_board: "board demo_player = demo_board"
  by (simp add: demo_player_def)

lemma demo_contract: "lib_contract (crypto demo_player)"
  using clear_crypto_contract by (simp add: demo_player_def)

lemma Board_default_size: "board_size Board_default = BOARD_SIZE"
  by (simp add: Board_default_def)


text \<open>
  C7. \<open>all_sunk\<close> is true exactly when \<open>hits_count\<close> is at least
  \<open>total_ship_cells\<close>. On a board produced by \<open>place_ships_random\<close>, encrypted by
  \<open>encrypt_board\<close>, with a library that meets its contract, after any sequence of
  shots made through \<open>process_guess\<close> (hits and misses in any order) \<open>all_sunk\<close> is
  true exactly when every cell of the grid holding a ship id has its \<open>hits\<close> flag set.
\<close>

theorem all_sunk_iff_every_ship_cell_shot:
  "(\<forall>bd. all_sunk bd = (hits_count bd \<ge> total_ship_cells bd)) \<and>
   (\<forall>b0 ds (p :: ('p, 'c) Player) d0 a shots d.
      place_ships_random b0 ds = Some (Inr (board p)) \<longrightarrow>
      board_size b0 = BOARD_SIZE \<longrightarrow>
      encrypt_board p = Inr d0 \<longrightarrow>
      lib_contract (crypto p) \<longrightarrow>
      shoot_all a d0 shots = Inr d \<longrightarrow>
      grid (board d) = grid (board p) \<and>
      all_sunk (board d) = (\<forall>(i, j) \<in> ship_cells (grid (board d)). hits (board d) ! i ! j))"
proof (rule conjI)
  show "\<forall>bd. all_sunk bd = (hits_count bd \<ge> total_ship_cells bd)"
    by (simp add: all_sunk_def)
next
  have main: "grid (board d) = grid (board p) \<and>
      all_sunk (board d) = (\<forall>(i, j) \<in> ship_cells (grid (board d)). hits (board d) ! i ! j)"
    if pl: "place_ships_random b0 ds = Some (Inr (board p))"
      and sz: "board_size b0 = BOARD_SIZE"
      and en: "encrypt_board p = Inr d0"
      and con: "lib_contract (crypto p)"
      and run: "shoot_all a d0 shots = Inr d"
    for b0 ds and p :: "('p, 'c) Player" and d0 a shots d
  proof -
    from initial_inv [OF pl sz en con] have inv0: "protocol_inv 10 d0"
      and b0: "board d0 = board p"
      by simp_all
    from shoot_all_inv [OF inv0 run] have inv: "protocol_inv 10 d"
      and g: "grid (board d) = grid (board d0)"
      by simp_all
    from protocol_inv_all_sunk [OF inv] g b0 show ?thesis by simp
  qed
  then show "\<forall>b0 ds (p :: ('p, 'c) Player) d0 a shots d.
      place_ships_random b0 ds = Some (Inr (board p)) \<longrightarrow>
      board_size b0 = BOARD_SIZE \<longrightarrow>
      encrypt_board p = Inr d0 \<longrightarrow>
      lib_contract (crypto p) \<longrightarrow>
      shoot_all a d0 shots = Inr d \<longrightarrow>
      grid (board d) = grid (board p) \<and>
      all_sunk (board d) = (\<forall>(i, j) \<in> ship_cells (grid (board d)). hits (board d) ! i ! j)"
    by blast
qed

lemma demo_sinking:
  "map_sum id (\<lambda>d. (all_sunk (board d), hits_count (board d)))
     (shoot_all demo_player demo_player sinking_shots) = Inr (True, 16)"
  by code_simp

lemma demo_not_yet_sunk:
  "map_sum id (\<lambda>d. (all_sunk (board d), hits_count (board d)))
     (shoot_all demo_player demo_player (butlast sinking_shots)) = Inr (False, 15)"
  by code_simp

theorem all_sunk_iff_every_ship_cell_shot_witness:
  "place_ships_random Board_default demo_draws = Some (Inr (board demo_player)) \<and>
   board_size Board_default = BOARD_SIZE \<and>
   encrypt_board demo_player = Inr demo_player \<and>
   lib_contract (crypto demo_player) \<and>
   shoot_all demo_player demo_player [(0, 0, 7)] = Inr demo_player_shot \<and>
   \<not> all_sunk (board demo_player_shot) \<and>
   \<not> (\<forall>(i, j) \<in> ship_cells (grid (board demo_player_shot)).
        hits (board demo_player_shot) ! i ! j) \<and>
   (\<exists>d. shoot_all demo_player demo_player sinking_shots = Inr d \<and>
        all_sunk (board d) \<and>
        (\<forall>(i, j) \<in> ship_cells (grid (board d)). hits (board d) ! i ! j))"
proof -
  have pl: "place_ships_random Board_default demo_draws = Some (Inr (board demo_player))"
    using demo_placed by (simp add: demo_player_board)
  note inst = all_sunk_iff_every_ship_cell_shot
    [where ?'p = "int list" and ?'c = "int list", THEN conjunct2, rule_format,
      OF pl Board_default_size demo_encrypt_board demo_contract]
  have n: "\<not> all_sunk (board demo_player_shot)"
    by (simp add: all_sunk_def demo_player_shot_def demo_board_def)
  have "all_sunk (board demo_player_shot) =
      (\<forall>(i, j) \<in> ship_cells (grid (board demo_player_shot)).
        hits (board demo_player_shot) ! i ! j)"
    by (rule conjunct2 [OF inst [OF demo_first_shot]])
  with n have a: "\<not> (\<forall>(i, j) \<in> ship_cells (grid (board demo_player_shot)).
        hits (board demo_player_shot) ! i ! j)"
    by blast
  from demo_sinking obtain d where run: "shoot_all demo_player demo_player sinking_shots = Inr d"
    and s: "all_sunk (board d)"
    by (cases "shoot_all demo_player demo_player sinking_shots") auto
  have "all_sunk (board d) = (\<forall>(i, j) \<in> ship_cells (grid (board d)). hits (board d) ! i ! j)"
    by (rule conjunct2 [OF inst [OF run]])
  with s have b: "\<forall>(i, j) \<in> ship_cells (grid (board d)). hits (board d) ! i ! j"
    by blast
  from run s b have c: "\<exists>d. shoot_all demo_player demo_player sinking_shots = Inr d \<and>
        all_sunk (board d) \<and>
        (\<forall>(i, j) \<in> ship_cells (grid (board d)). hits (board d) ! i ! j)"
    by blast
  from a c n pl Board_default_size demo_encrypt_board demo_contract demo_first_shot
  show ?thesis by (intro conjI)
qed

end
